theory Spec2Isabelle
  imports Complex_Main
begin

section \<open>Data model of \<open>scraper.py\<close>\<close>

text \<open>
  The scraper builds every event as a dictionary with the same eleven string keys
  (\<open>process_one_game\<close>, the literal at the end of the column loop). The record below has
  one field per key, named as the key is. Python's \<open>int\<close> is unbounded and is \<open>int\<close> here.
  Python's \<open>float\<close> is modelled by \<open>real\<close>: the order comparisons the resampler makes are
  exact on floats other than NaN, and the arithmetic of the time converter is exact on the
  small integral values the stated identities use; rounding is not modelled.
\<close>

record game_event =
  game_id :: string
  round_num :: int
  away :: string
  away_rank :: int
  home :: string
  home_rank :: int
  time :: real
  away_score :: int
  home_score :: int
  diff_score :: int
  rank_diff :: int

text \<open>The exceptions that the modelled functions can raise.\<close>

datatype py_error = IndexError | ValueError | UnboundLocalError | AttributeError

section \<open>\<open>convert_global_time\<close>\<close>

text \<open>
  \<^verbatim>\<open>
  def convert_global_time(relative_time, half):
      if half < 3:
          since_start_of_half = 20.0 - relative_time
      else:
          since_start_of_half = 5.0 - relative_time
      global_time = 20.0 * (half - 1) + since_start_of_half
      return global_time
  \<close>
\<close>

definition convert_global_time :: "real \<Rightarrow> int \<Rightarrow> real" where
  "convert_global_time relative_time half =
     (let since_start_of_half =
            (if half < 3 then 20 - relative_time else 5 - relative_time);
          global_time = 20 * real_of_int (half - 1) + since_start_of_half
      in global_time)"

text \<open>
  The formula of the specification (section 4.2), written from its words: the nominal
  length of a period, the time elapsed before the period, and their combination.
\<close>

definition spec_nominal_length :: "int \<Rightarrow> real" where
  "spec_nominal_length p = (if p \<le> 2 then 20 else 5)"

definition spec_elapsed_before_period :: "int \<Rightarrow> real" where
  "spec_elapsed_before_period p = real_of_int (20 * min (p - 1) 2 + 5 * max (p - 3) 0)"

definition spec_global_time :: "real \<Rightarrow> int \<Rightarrow> real" where
  "spec_global_time countdown p =
     spec_elapsed_before_period p + (spec_nominal_length p - countdown)"

section \<open>\<open>make_uniform_time_intervals\<close>, on values\<close>

text \<open>
  \<^verbatim>\<open>
  def make_uniform_time_intervals(events, times):
      new_events = []
      event_index = 0
      cur_event = events[event_index]
      for t in times:
          while t > cur_event['time']:
              if event_index < len(events) - 1:
                  event_index += 1
                  cur_event = events[event_index]
              else:
                  break
          event = {k : v for k, v in cur_event.items()}
          event['time'] = t
          new_events.append(event)
      return new_events
  \<close>
  \<open>cur_event\<close> is \<open>events[event_index]\<close> whenever it is read (both are assigned together),
  so the model carries the index only. \<open>advance\<close> is the inner \<open>while\<close>; the index stays
  below \<open>len(events)\<close>, since it is incremented only under the guard
  \<open>event_index < len(events) - 1\<close>.
\<close>

function advance :: "game_event list \<Rightarrow> real \<Rightarrow> nat \<Rightarrow> nat" where
  "advance events t event_index =
     (if t > time (events ! event_index)
      then (if event_index < length events - 1
            then advance events t (event_index + 1)
            else event_index)
      else event_index)"
  by pat_completeness auto
termination
  by (relation "measure (\<lambda>(events, t, event_index). length events - event_index)") auto

declare advance.simps [simp del]

text \<open>The \<open>for\<close> loop: one copy of the current event per checkpoint, in order.\<close>

fun resample_loop :: "game_event list \<Rightarrow> real list \<Rightarrow> nat \<Rightarrow> game_event list" where
  "resample_loop events [] event_index = []"
| "resample_loop events (t # ts) event_index =
     (let event_index' = advance events t event_index;
          cur_event = events ! event_index';
          event = cur_event\<lparr>time := t\<rparr>
      in event # resample_loop events ts event_index')"

text \<open>\<open>events[0]\<close> raises \<open>IndexError\<close> on an empty list, before any checkpoint is read.\<close>

definition make_uniform_time_intervals ::
    "game_event list \<Rightarrow> real list \<Rightarrow> py_error + game_event list" where
  "make_uniform_time_intervals events times' =
     (case events of
        [] \<Rightarrow> Inl IndexError
      | _ # _ \<Rightarrow> Inr (resample_loop events times' 0))"

text \<open>
  The specification's description of the record delivered for a checkpoint \<open>t\<close>, written
  from its words: the most recent input event whose time is at most \<open>t\<close>, if there is one.
\<close>

definition spec_most_recent_at_or_before ::
    "game_event list \<Rightarrow> real \<Rightarrow> game_event option" where
  "spec_most_recent_at_or_before events t =
     (case filter (\<lambda>e. time e \<le> t) events of
        [] \<Rightarrow> None
      | e # es \<Rightarrow> Some (last (e # es)))"

section \<open>\<open>make_uniform_time_intervals\<close>, on a store of objects\<close>

text \<open>
  Python lists hold references to dictionaries, and \<open>event['time'] = t\<close> updates an object
  in place. To state what the resampler does to the objects it is given, the same function
  is modelled a second time on an explicit store: a store is the list of all dictionaries
  allocated so far, an address is a position in it, and \<open>events\<close> and \<open>new_events\<close> are
  lists of addresses (which may repeat). The dictionary comprehension allocates a new object
  holding the items of \<open>cur_event\<close>; the assignment to \<open>event['time']\<close> updates the object
  at the address bound to \<open>event\<close>.
\<close>

type_synonym addr = nat
type_synonym store = "game_event list"

definition alloc :: "store \<Rightarrow> game_event \<Rightarrow> addr \<times> store" where
  "alloc h e = (length h, h @ [e])"

definition set_time :: "store \<Rightarrow> addr \<Rightarrow> real \<Rightarrow> store" where
  "set_time h a t = h[a := (h ! a)\<lparr>time := t\<rparr>]"

function advance_h :: "store \<Rightarrow> addr list \<Rightarrow> real \<Rightarrow> nat \<Rightarrow> nat" where
  "advance_h h events t event_index =
     (if t > time (h ! (events ! event_index))
      then (if event_index < length events - 1
            then advance_h h events t (event_index + 1)
            else event_index)
      else event_index)"
  by pat_completeness auto
termination
  by (relation "measure (\<lambda>(h, events, t, event_index). length events - event_index)") auto

declare advance_h.simps [simp del]

fun resample_loop_h ::
    "addr list \<Rightarrow> real list \<Rightarrow> nat \<Rightarrow> addr list \<Rightarrow> store \<Rightarrow> addr list \<times> store" where
  "resample_loop_h events [] event_index new_events h = (new_events, h)"
| "resample_loop_h events (t # ts) event_index new_events h =
     (let event_index' = advance_h h events t event_index;
          cur_event = events ! event_index';
          (event, h1) = alloc h (h ! cur_event);
          h2 = set_time h1 event t
      in resample_loop_h events ts event_index' (new_events @ [event]) h2)"

definition make_uniform_time_intervals_h ::
    "store \<Rightarrow> addr list \<Rightarrow> real list \<Rightarrow> py_error + (addr list \<times> store)" where
  "make_uniform_time_intervals_h h events times' =
     (case events of
        [] \<Rightarrow> Inl IndexError
      | _ # _ \<Rightarrow> Inr (resample_loop_h events times' 0 [] h))"

section \<open>Tokens: the three patterns and the conversions\<close>

text \<open>
  \<^verbatim>\<open>
  SCORE_RE = r'[0-9]*\-[0-9]*$'
  TIMESTAMP_RE = r'[0-9]*:[0-9]*$'
  END_OF_PERIOD_RE = r'End of'
  \<close>
  All three are used with \<open>re.match\<close>, which anchors the pattern at the start of the text.
  Without the MULTILINE flag \<open>$\<close> holds at the end of the text and just before a newline
  that ends the text. A greedy \<open>[0-9]*\<close> followed by a character that is not a digit leaves
  nothing to backtrack to, so the match is decided by skipping the digits.
\<close>

definition is_digit :: "char \<Rightarrow> bool" where
  "is_digit c = (c \<in> set ''0123456789'')"

definition at_dollar :: "string \<Rightarrow> bool" where
  "at_dollar s = (s = [] \<or> s = [CHR 0x0A])"

definition match_digits_sep_digits :: "char \<Rightarrow> string \<Rightarrow> bool" where
  "match_digits_sep_digits sep s =
     (case dropWhile is_digit s of
        [] \<Rightarrow> False
      | c # r \<Rightarrow> c = sep \<and> at_dollar (dropWhile is_digit r))"

definition match_SCORE_RE :: "string \<Rightarrow> bool" where
  "match_SCORE_RE s = match_digits_sep_digits (CHR ''-'') s"

definition match_TIMESTAMP_RE :: "string \<Rightarrow> bool" where
  "match_TIMESTAMP_RE s = match_digits_sep_digits (CHR '':'') s"

definition match_END_OF_PERIOD_RE :: "string \<Rightarrow> bool" where
  "match_END_OF_PERIOD_RE s = (take 6 s = ''End of'')"

text \<open>\<open>str.split(sep)\<close> for a one-character separator: \<open>''.split('-')\<close> is \<open>['']\<close>.\<close>

fun py_split :: "char \<Rightarrow> string \<Rightarrow> string list" where
  "py_split sep [] = [[]]"
| "py_split sep (c # cs) =
     (if c = sep then [] # py_split sep cs
      else (case py_split sep cs of
              [] \<Rightarrow> [[c]]
            | p # ps \<Rightarrow> (c # p) # ps))"

text \<open>
  \<open>int(s)\<close> on a string: surrounding whitespace is stripped, then an optional sign, then
  groups of ASCII digits separated by single underscores; anything else raises
  \<open>ValueError\<close>. (Digits outside ASCII, which \<open>int\<close> also accepts, are not modelled.)
\<close>

definition is_space :: "char \<Rightarrow> bool" where
  "is_space c = (c \<in> set [CHR 0x09, CHR 0x0A, CHR 0x0B, CHR 0x0C, CHR 0x0D,
                            CHR 0x1C, CHR 0x1D, CHR 0x1E, CHR 0x1F, CHR 0x20])"

definition py_strip :: "string \<Rightarrow> string" where
  "py_strip s = rev (dropWhile is_space (rev (dropWhile is_space s)))"

definition digit_val :: "char \<Rightarrow> int" where
  "digit_val c = int (of_char c) - 48"

definition digits_val :: "string \<Rightarrow> int" where
  "digits_val ds = foldl (\<lambda>acc c. 10 * acc + digit_val c) 0 ds"

definition py_int :: "string \<Rightarrow> py_error + int" where
  "py_int s =
     (let b = py_strip s;
          neg = (take 1 b = ''-'');
          body = (if take 1 b = ''-'' \<or> take 1 b = ''+'' then drop 1 b else b);
          groups = py_split (CHR ''_'') body
      in if list_all (\<lambda>g. g \<noteq> [] \<and> list_all is_digit g) groups
         then Inr (if neg then - digits_val (concat groups) else digits_val (concat groups))
         else Inl ValueError)"

text \<open>
  \<open>float(s)\<close>. \<open>parse_time\<close> is the only caller, and it is reached only with the two parts
  of a text that matched \<open>TIMESTAMP_RE\<close>: strings of ASCII digits, the second possibly
  followed by a newline. On the strings that \<open>int\<close> accepts, \<open>float\<close> accepts too and
  denotes the same number; the other literals of \<open>float\<close> (a fraction, an exponent, \<open>inf\<close>,
  \<open>nan\<close>) cannot reach it and are not modelled.
\<close>

definition py_float :: "string \<Rightarrow> py_error + real" where
  "py_float s = (case py_int s of Inl e \<Rightarrow> Inl e | Inr n \<Rightarrow> Inr (real_of_int n))"

text \<open>
  \<^verbatim>\<open>
  def parse_time(time_str):
      minutes, seconds = time_str.split(':')
      return float(minutes) + float(seconds) / 60
  \<close>
  Unpacking a list whose length is not two raises \<open>ValueError\<close>.
\<close>

definition parse_time :: "string \<Rightarrow> py_error + real" where
  "parse_time time_str =
     (case py_split (CHR '':'') time_str of
        [minutes, seconds] \<Rightarrow>
          (case py_float minutes of
             Inl e \<Rightarrow> Inl e
           | Inr m \<Rightarrow>
               (case py_float seconds of
                  Inl e \<Rightarrow> Inl e
                | Inr s \<Rightarrow> Inr (m + s / 60)))
      | _ \<Rightarrow> Inl ValueError)"

text \<open>\<open>[int(s) for s in ...]\<close>: the first failing conversion raises.\<close>

fun py_ints :: "string list \<Rightarrow> py_error + int list" where
  "py_ints [] = Inr []"
| "py_ints (s # ss) =
     (case py_int s of
        Inl e \<Rightarrow> Inl e
      | Inr n \<Rightarrow> (case py_ints ss of Inl e \<Rightarrow> Inl e | Inr ns \<Rightarrow> Inr (n # ns)))"

section \<open>The parsed page\<close>

text \<open>
  Retrieval and HTML parsing are done by \<open>requests\<close> and \<open>BeautifulSoup\<close>, outside the
  repository. The model takes what the scraper reads from the parsed page as its input:
  the texts of the \<open>a\<close> elements of the table of class \<open>linescore\<close> (\<open>None\<close> when
  \<open>soup.find\<close> finds no such table), the texts of the \<open>td\<close> cells of class \<open>teamRank\<close>,
  and for each \<open>tr\<close> the texts of its \<open>td\<close> cells, all in document order.
\<close>

record page =
  linescore_links :: "string list option"
  team_rank_cells :: "string list"
  tr_rows :: "string list list"

text \<open>
  \<open>soup.find_all\<close> returns a list of the matching elements, empty when there is none; it
  never returns \<open>None\<close>. The result is kept as an optional list so that the test
  \<open>rank_rows is None\<close> of the source can be written as it stands.
\<close>

definition find_all_teamRank :: "page \<Rightarrow> string list option" where
  "find_all_teamRank soup = Some (team_rank_cells soup)"

text \<open>
  \<^verbatim>\<open>
  def parse_team_names_and_rankings(soup):
      linescore_table = soup.find('table', {'class' : 'linescore'})
      away_name, home_name = [t.text for t in linescore_table.find_all('a')]
      rank_rows = soup.find_all('td', {'class' : 'teamRank'})
      if rank_rows is None:
          away_rank, home_rank = -1, -1
      else:
          away_rank, home_rank = [int(t.text.replace('#', '')) for t in rank_rows if t.text != '']
      return away_name, away_rank, home_name, home_rank
  \<close>
  Calling \<open>find_all\<close> on \<open>None\<close> raises \<open>AttributeError\<close>; each unpacking of a list whose
  length is not two raises \<open>ValueError\<close>.
\<close>

definition parse_ranks :: "string list option \<Rightarrow> py_error + (int \<times> int)" where
  "parse_ranks rank_rows =
     (case rank_rows of
        None \<Rightarrow> Inr (- 1, - 1)
      | Some cells \<Rightarrow>
          (case py_ints (map (filter (\<lambda>c. c \<noteq> CHR ''#'')) (filter (\<lambda>t. t \<noteq> []) cells)) of
             Inl e \<Rightarrow> Inl e
           | Inr [away_rank', home_rank'] \<Rightarrow> Inr (away_rank', home_rank')
           | Inr _ \<Rightarrow> Inl ValueError))"

definition parse_team_names_and_rankings ::
    "page \<Rightarrow> py_error + (string \<times> int \<times> string \<times> int)" where
  "parse_team_names_and_rankings soup =
     (case linescore_links soup of
        None \<Rightarrow> Inl AttributeError
      | Some [away_name', home_name'] \<Rightarrow>
          (case parse_ranks (find_all_teamRank soup) of
             Inl e \<Rightarrow> Inl e
           | Inr (away_rank', home_rank') \<Rightarrow> Inr (away_name', away_rank', home_name', home_rank'))
      | Some _ \<Rightarrow> Inl ValueError)"

section \<open>\<open>process_one_game\<close>\<close>

text \<open>
  The values computed once before the rows are scanned, and the local variables the scan
  updates. A local variable that shares its name with a key of the event dictionary has the
  suffix \<open>_v\<close>. \<open>away_score\<close>, \<open>home_score\<close> and \<open>cur_time\<close> are unbound until their first
  assignment; reading an unbound local raises \<open>UnboundLocalError\<close>.
\<close>

record game_locals =
  game_id_v :: string
  round_num_v :: int
  away_name :: string
  away_rank_v :: int
  home_name :: string
  home_rank_v :: int
  rank_diff_v :: int
  home_higher_rank :: bool

record scan_state =
  period :: int
  previous_away_score :: int
  previous_home_score :: int
  away_score_v :: "int option"
  home_score_v :: "int option"
  cur_time :: "real option"
  event_row :: bool
  all_events :: "game_event list"

text \<open>
  The body of \<open>for col in cols\<close> is four \<open>if\<close> statements in sequence:
  \<^verbatim>\<open>
  if re.match(SCORE_RE, col.text):
      away_score, home_score = [int(s) for s in col.text.split('-')]
      event_row = away_score != previous_away_score or home_score != previous_home_score
      previous_away_score = away_score
      previous_home_score = home_score
  if re.match(TIMESTAMP_RE, col.text):
      cur_time = parse_time(col.text)
  if re.match(END_OF_PERIOD_RE, col.text):
      period += 1
  if event_row:
      diff_score = home_score - away_score if home_higher_rank else away_score - home_score
      global_time = convert_global_time(cur_time, period)
      event = {...}
      all_events.append(event)
  \<close>
\<close>

definition score_step :: "scan_state \<Rightarrow> string \<Rightarrow> py_error + scan_state" where
  "score_step st col_text =
     (if match_SCORE_RE col_text
      then (case py_ints (py_split (CHR ''-'') col_text) of
              Inl e \<Rightarrow> Inl e
            | Inr [a, h] \<Rightarrow>
                Inr (st\<lparr>away_score_v := Some a, home_score_v := Some h,
                        event_row := (a \<noteq> previous_away_score st \<or> h \<noteq> previous_home_score st),
                        previous_away_score := a, previous_home_score := h\<rparr>)
            | Inr _ \<Rightarrow> Inl ValueError)
      else Inr st)"

definition timestamp_step :: "scan_state \<Rightarrow> string \<Rightarrow> py_error + scan_state" where
  "timestamp_step st col_text =
     (if match_TIMESTAMP_RE col_text
      then (case parse_time col_text of
              Inl e \<Rightarrow> Inl e
            | Inr t \<Rightarrow> Inr (st\<lparr>cur_time := Some t\<rparr>))
      else Inr st)"

definition period_step :: "scan_state \<Rightarrow> string \<Rightarrow> scan_state" where
  "period_step st col_text =
     (if match_END_OF_PERIOD_RE col_text then st\<lparr>period := period st + 1\<rparr> else st)"

definition make_event :: "game_locals \<Rightarrow> scan_state \<Rightarrow> int \<Rightarrow> int \<Rightarrow> real \<Rightarrow> game_event" where
  "make_event g st a h ct =
     (let diff_score' = (if home_higher_rank g then h - a else a - h);
          global_time = convert_global_time ct (period st)
      in \<lparr>game_id = game_id_v g, round_num = round_num_v g,
          away = away_name g, away_rank = away_rank_v g,
          home = home_name g, home_rank = home_rank_v g,
          time = global_time, away_score = a, home_score = h,
          diff_score = diff_score', rank_diff = rank_diff_v g\<rparr>)"

definition emit_step :: "game_locals \<Rightarrow> scan_state \<Rightarrow> py_error + scan_state" where
  "emit_step g st =
     (if event_row st
      then (case (away_score_v st, home_score_v st, cur_time st) of
              (Some a, Some h, Some ct) \<Rightarrow>
                Inr (st\<lparr>all_events := all_events st @ [make_event g st a h ct]\<rparr>)
            | _ \<Rightarrow> Inl UnboundLocalError)
      else Inr st)"

definition process_col :: "game_locals \<Rightarrow> scan_state \<Rightarrow> string \<Rightarrow> py_error + scan_state" where
  "process_col g st col_text =
     (case score_step st col_text of
        Inl e \<Rightarrow> Inl e
      | Inr st1 \<Rightarrow>
          (case timestamp_step st1 col_text of
             Inl e \<Rightarrow> Inl e
           | Inr st2 \<Rightarrow> emit_step g (period_step st2 col_text)))"

fun process_cols :: "game_locals \<Rightarrow> scan_state \<Rightarrow> string list \<Rightarrow> py_error + scan_state" where
  "process_cols g st [] = Inr st"
| "process_cols g st (col_text # cols) =
     (case process_col g st col_text of
        Inl e \<Rightarrow> Inl e
      | Inr st' \<Rightarrow> process_cols g st' cols)"

text \<open>Each row starts with \<open>event_row = False\<close>.\<close>

definition process_row :: "game_locals \<Rightarrow> scan_state \<Rightarrow> string list \<Rightarrow> py_error + scan_state" where
  "process_row g st cols = process_cols g (st\<lparr>event_row := False\<rparr>) cols"

fun process_rows :: "game_locals \<Rightarrow> scan_state \<Rightarrow> string list list \<Rightarrow> py_error + scan_state" where
  "process_rows g st [] = Inr st"
| "process_rows g st (row # rows) =
     (case process_row g st row of
        Inl e \<Rightarrow> Inl e
      | Inr st' \<Rightarrow> process_rows g st' rows)"

text \<open>
  The state before the first row: \<open>period = 1\<close>, both previous scores \<open>0\<close>, no event.
  \<open>event_row\<close> is assigned at the start of every row; its value here is never read.
\<close>

definition initial_state :: scan_state where
  "initial_state =
     \<lparr>period = 1, previous_away_score = 0, previous_home_score = 0,
      away_score_v = None, home_score_v = None, cur_time = None,
      event_row = False, all_events = []\<rparr>"

text \<open>
  \<^verbatim>\<open>
  away_name, away_rank, home_name, home_rank = parse_team_names_and_rankings(soup)
  rank_diff = abs(away_rank - home_rank)
  game_id = '%s-%s' % (away_name, home_name)
  home_higher_rank = home_rank < away_rank
  \<close>
\<close>

definition locals_of :: "string \<times> int \<times> string \<times> int \<Rightarrow> int \<Rightarrow> game_locals" where
  "locals_of ident rn =
     (case ident of (away_name', away_rank', home_name', home_rank') \<Rightarrow>
        \<lparr>game_id_v = away_name' @ ''-'' @ home_name', round_num_v = rn,
         away_name = away_name', away_rank_v = away_rank',
         home_name = home_name', home_rank_v = home_rank',
         rank_diff_v = \<bar>away_rank' - home_rank'\<bar>,
         home_higher_rank = (home_rank' < away_rank')\<rparr>)"

text \<open>
  The extraction proper, from the team identity and the rows (lines 115 to 166 of the
  source), and the whole function, which takes the parsed page in place of the URL and
  resamples when \<open>time_intervals\<close> is given.
\<close>

definition extract_events ::
    "string \<times> int \<times> string \<times> int \<Rightarrow> int \<Rightarrow> string list list \<Rightarrow> py_error + game_event list" where
  "extract_events ident rn rows =
     (case process_rows (locals_of ident rn) initial_state rows of
        Inl e \<Rightarrow> Inl e
      | Inr st \<Rightarrow> Inr (all_events st))"

definition process_one_game ::
    "page \<Rightarrow> int \<Rightarrow> real list option \<Rightarrow> py_error + game_event list" where
  "process_one_game soup rn time_intervals =
     (case parse_team_names_and_rankings soup of
        Inl e \<Rightarrow> Inl e
      | Inr ident \<Rightarrow>
          (case extract_events ident rn (tr_rows soup) of
             Inl e \<Rightarrow> Inl e
           | Inr evs \<Rightarrow>
               (case time_intervals of
                  None \<Rightarrow> Inr evs
                | Some ts \<Rightarrow> make_uniform_time_intervals evs ts)))"

section \<open>Notions used in the statements\<close>

text \<open>
  What \<open>make_uniform_time_intervals\<close> computes for a checkpoint \<open>t\<close>, in closed form: the
  index of the first event whose time is at least \<open>t\<close>, or the last index when every
  event is earlier than \<open>t\<close>.
\<close>

definition first_at_or_after :: "game_event list \<Rightarrow> real \<Rightarrow> nat" where
  "first_at_or_after events t =
     (let n = length (takeWhile (\<lambda>e. time e < t) events)
      in if n < length events then n else length events - 1)"

text \<open>An event carries the values that \<open>process_one_game\<close> fixed before scanning the rows.\<close>

definition carries_identity :: "game_locals \<Rightarrow> game_event \<Rightarrow> bool" where
  "carries_identity g e =
     (game_id e = game_id_v g \<and> round_num e = round_num_v g \<and>
      away e = away_name g \<and> away_rank e = away_rank_v g \<and>
      home e = home_name g \<and> home_rank e = home_rank_v g \<and>
      rank_diff e = rank_diff_v g)"

text \<open>A cell text that matches none of the three patterns.\<close>

definition unmatched :: "string \<Rightarrow> bool" where
  "unmatched c =
     (\<not> match_SCORE_RE c \<and> \<not> match_TIMESTAMP_RE c \<and> \<not> match_END_OF_PERIOD_RE c)"

text \<open>The events of a scan result, the exception if the scan raised.\<close>

definition events_of :: "py_error + scan_state \<Rightarrow> py_error + game_event list" where
  "events_of r = (case r of Inl e \<Rightarrow> Inl e | Inr st \<Rightarrow> Inr (all_events st))"

section \<open>Example inputs\<close>

text \<open>Two events of one game, at minutes 1 and 5, used where a theorem is evaluated.\<close>

definition ex_event_a :: game_event where
  "ex_event_a =
     \<lparr>game_id = ''A-B'', round_num = 2, away = ''A'', away_rank = 5,
      home = ''B'', home_rank = 10, time = 1, away_score = 2, home_score = 0,
      diff_score = 2, rank_diff = 5\<rparr>"

definition ex_event_b :: game_event where
  "ex_event_b =
     \<lparr>game_id = ''A-B'', round_num = 2, away = ''A'', away_rank = 5,
      home = ''B'', home_rank = 10, time = 5, away_score = 4, home_score = 0,
      diff_score = 4, rank_diff = 5\<rparr>"

text \<open>The team identity of these events, and a page with both team links and no rank cell.\<close>

definition ex_identity :: "string \<times> int \<times> string \<times> int" where
  "ex_identity = (''A'', 5, ''B'', 10)"

definition ex_page_no_ranks :: page where
  "ex_page_no_ranks =
     \<lparr>linescore_links = Some [''A'', ''B''], team_rank_cells = [],
      tr_rows = [[''20:00'', ''2-0'']]\<rparr>"

section \<open>The time converter\<close>

text \<open>
  Claim C8. The five identities of the specification hold of \<open>convert_global_time\<close>:
  countdown 20 in period 1 is minute 0, countdown 0 in period 1 is minute 20, countdown 0
  in period 2 is minute 40, countdown 5 in period 3 is minute 40 and countdown 0 in
  period 3 is minute 45.
\<close>

theorem convert_global_time_identities:
  "convert_global_time 20 1 = 0 \<and> convert_global_time 0 1 = 20 \<and>
   convert_global_time 0 2 = 40 \<and> convert_global_time 5 3 = 40 \<and>
   convert_global_time 0 3 = 45"
  by (simp add: convert_global_time_def)

text \<open>
  The source and the formula of the specification agree on periods 1 to 3. From period 4
  on the source counts every earlier period as 20 minutes, the overtime periods too, and
  is ahead of the formula by 15 minutes for each overtime period already played.
\<close>

lemma convert_global_time_regulation_and_first_overtime:
  "1 \<le> p \<Longrightarrow> p \<le> 3 \<Longrightarrow> convert_global_time c p = spec_global_time c p"
  by (auto simp: convert_global_time_def spec_global_time_def spec_elapsed_before_period_def
      spec_nominal_length_def min_def max_def)

lemma convert_global_time_later_overtime:
  "4 \<le> p \<Longrightarrow> convert_global_time c p = spec_global_time c p + 15 * real_of_int (p - 3)"
  by (auto simp: convert_global_time_def spec_global_time_def spec_elapsed_before_period_def
      spec_nominal_length_def min_def max_def)

text \<open>
  Claim C2. The claim is that for every countdown and every period from 1 on the converter
  returns the time elapsed before the period, \<open>20 * min (period - 1) 2 + 5 * max (period - 3) 0\<close>,
  plus the nominal length of the period minus the countdown. At the start of the second
  overtime (countdown 5, period 4) the source returns 60, where the formula of the claim
  gives 45.
\<close>

theorem convert_global_time_second_overtime:
  "convert_global_time 5 4 = 60 \<and> spec_global_time 5 4 = 45"
  by (simp add: convert_global_time_def spec_global_time_def spec_elapsed_before_period_def
      spec_nominal_length_def)

section \<open>The resampler on values\<close>

lemma advance_bound: "i < length events \<Longrightarrow> advance events t i < length events"
proof (induction events t i rule: advance.induct)
  case (1 events t i)
  then show ?case by (subst advance.simps) auto
qed

lemma length_resample_loop: "length (resample_loop events ts i) = length ts"
  by (induction ts arbitrary: i) (simp_all add: Let_def)

lemma map_time_resample_loop: "map time (resample_loop events ts i) = ts"
  by (induction ts arbitrary: i) (simp_all add: Let_def)

lemma make_uniform_time_intervals_nonempty:
  "events \<noteq> [] \<Longrightarrow>
     make_uniform_time_intervals events times' = Inr (resample_loop events times' 0)"
  by (cases events) (simp_all add: make_uniform_time_intervals_def)

text \<open>
  Claim C6. With an empty event sequence the resampler raises (the \<open>IndexError\<close> of
  \<open>events[0]\<close>) whatever the checkpoints are, and returns no records.
\<close>

theorem resample_empty_events_raises:
  "make_uniform_time_intervals [] times' = Inl IndexError"
  by (simp add: make_uniform_time_intervals_def)

text \<open>
  Claim C5. For a non-empty event sequence the resampler returns as many records as there
  are checkpoints, and the time of the \<open>i\<close>-th record is the \<open>i\<close>-th checkpoint. The
  orderings the claim assumes of the events and of the checkpoints are not needed.
\<close>

theorem resample_length_and_times:
  assumes "events \<noteq> []"
  shows "\<exists>out. make_uniform_time_intervals events times' = Inr out \<and>
     length out = length times' \<and> (\<forall>i < length times'. time (out ! i) = times' ! i)"
proof -
  let ?out = "resample_loop events times' 0"
  have r: "make_uniform_time_intervals events times' = Inr ?out"
    using assms by (rule make_uniform_time_intervals_nonempty)
  have l: "length ?out = length times'" by (rule length_resample_loop)
  have "\<forall>i < length times'. time (?out ! i) = times' ! i"
  proof (intro allI impI)
    fix i assume "i < length times'"
    with l have "time (?out ! i) = map time ?out ! i" by simp
    then show "time (?out ! i) = times' ! i" by (simp only: map_time_resample_loop)
  qed
  with r l show ?thesis by blast
qed

theorem resample_length_and_times_witness:
  "\<exists>out. make_uniform_time_intervals [ex_event_a, ex_event_b] [0, 3, 7] = Inr out \<and>
     length out = 3 \<and> map time out = [0, 3, 7]"
proof -
  have ne: "[ex_event_a, ex_event_b] \<noteq> []" by simp
  from resample_length_and_times [OF ne, of "[0, 3, 7]"] obtain out where
    o: "make_uniform_time_intervals [ex_event_a, ex_event_b] [0, 3, 7] = Inr out"
      "length out = length [0::real, 3, 7]"
      "\<forall>i < length [0::real, 3, 7]. time (out ! i) = [0, 3, 7] ! i"
    by blast
  then have "map time out = [0, 3, 7]"
    by (intro nth_equalityI) simp_all
  with o show ?thesis by simp
qed

text \<open>
  What the loop computes. The inner \<open>while\<close> started at index \<open>i\<close>, with every earlier event
  before \<open>t\<close>, stops at the first event whose time is at least \<open>t\<close>, or at the last event.
  For non-decreasing checkpoints the cursor therefore never has to go back, and the record
  for a checkpoint \<open>t\<close> is a copy of that event with its time set to \<open>t\<close>.
\<close>

lemma advance_first_at_or_after:
  "i < length events \<Longrightarrow> \<forall>k < i. time (events ! k) < t \<Longrightarrow>
     advance events t i = first_at_or_after events t"
proof (induction events t i rule: advance.induct)
  case (1 events t i)
  show ?case
  proof (cases "t > time (events ! i)")
    case False
    have "takeWhile (\<lambda>e. time e < t) events = take i events"
      using "1.prems" False by (intro takeWhile_eq_take_P_nth) auto
    then have "first_at_or_after events t = i"
      using "1.prems"(1) by (simp add: first_at_or_after_def)
    with False show ?thesis by (subst advance.simps) simp
  next
    case True
    show ?thesis
    proof (cases "i < length events - 1")
      case t2: True
      have "\<forall>k < i + 1. time (events ! k) < t"
        using "1.prems"(2) True by (auto simp: less_Suc_eq)
      with "1.IH" [OF True t2] t2 have "advance events t (i + 1) = first_at_or_after events t"
        by simp
      with True t2 show ?thesis by (subst advance.simps) simp
    next
      case f2: False
      with "1.prems"(1) have i: "i = length events - 1" by simp
      have "\<forall>e \<in> set events. time e < t"
      proof
        fix e assume "e \<in> set events"
        then obtain k where k: "k < length events" "e = events ! k"
          by (auto simp: in_set_conv_nth)
        with i have "k < i \<or> k = i" by auto
        with "1.prems"(2) True k(2) show "time e < t" by auto
      qed
      then have tw: "takeWhile (\<lambda>e. time e < t) events = events"
        by (simp add: takeWhile_eq_all_conv)
      have "first_at_or_after events t = i"
        unfolding first_at_or_after_def tw using i by simp
      with True f2 show ?thesis by (subst advance.simps) simp
    qed
  qed
qed

lemma first_at_or_after_before:
  assumes "k < first_at_or_after events t"
  shows "time (events ! k) < t"
proof -
  let ?n = "length (takeWhile (\<lambda>e. time e < t) events)"
  have "first_at_or_after events t \<le> ?n"
    using length_takeWhile_le [of "\<lambda>e. time e < t" events]
    by (auto simp: first_at_or_after_def Let_def)
  with assms have "k < ?n" by simp
  then show ?thesis
    by (metis (mono_tags, lifting) nth_length_takeWhile takeWhile_nth nth_mem set_takeWhileD)
qed

lemma first_at_or_after_bound: "events \<noteq> [] \<Longrightarrow> first_at_or_after events t < length events"
  by (auto simp: first_at_or_after_def Let_def)

lemma resample_loop_first_at_or_after:
  "sorted (t0 # ts) \<Longrightarrow> i < length events \<Longrightarrow> \<forall>k < i. time (events ! k) < t0 \<Longrightarrow>
     resample_loop events ts i =
       map (\<lambda>t. (events ! first_at_or_after events t)\<lparr>time := t\<rparr>) ts"
proof (induction ts arbitrary: i t0)
  case Nil
  then show ?case by simp
next
  case (Cons t ts)
  from Cons.prems(1) have le: "t0 \<le> t" and s: "sorted (t # ts)" by simp_all
  from Cons.prems(3) le have "\<forall>k < i. time (events ! k) < t" by fastforce
  from advance_first_at_or_after [OF Cons.prems(2) this]
  have a: "advance events t i = first_at_or_after events t" .
  have ne: "events \<noteq> []" using Cons.prems(2) by auto
  have "resample_loop events ts (first_at_or_after events t) =
      map (\<lambda>t. (events ! first_at_or_after events t)\<lparr>time := t\<rparr>) ts"
    using s first_at_or_after_bound [OF ne] first_at_or_after_before
    by (intro Cons.IH [of t]) auto
  with a show ?case by (simp add: Let_def)
qed

lemma make_uniform_time_intervals_first_at_or_after:
  assumes "events \<noteq> []" and "sorted ts"
  shows "make_uniform_time_intervals events ts =
     Inr (map (\<lambda>t. (events ! first_at_or_after events t)\<lparr>time := t\<rparr>) ts)"
proof (cases ts)
  case Nil
  with assms(1) show ?thesis by (simp add: make_uniform_time_intervals_nonempty)
next
  case (Cons t ts')
  from assms have "resample_loop events ts 0 =
      map (\<lambda>t. (events ! first_at_or_after events t)\<lparr>time := t\<rparr>) ts"
    using Cons by (intro resample_loop_first_at_or_after [of t]) auto
  with assms(1) show ?thesis by (simp add: make_uniform_time_intervals_nonempty)
qed

text \<open>Every record returned is an input event with its time replaced.\<close>

lemma resample_loop_copies:
  "i < length events \<Longrightarrow> e \<in> set (resample_loop events ts i) \<Longrightarrow>
     \<exists>e' \<in> set events. e = e'\<lparr>time := time e\<rparr>"
proof (induction ts arbitrary: i)
  case Nil
  then show ?case by simp
next
  case (Cons t ts)
  let ?i = "advance events t i"
  have ib: "?i < length events" using Cons.prems(1) by (rule advance_bound)
  from Cons.prems(2) consider "e = (events ! ?i)\<lparr>time := t\<rparr>"
    | "e \<in> set (resample_loop events ts ?i)"
    by (auto simp: Let_def)
  then show ?case
  proof cases
    case 1
    then have "e = (events ! ?i)\<lparr>time := time e\<rparr>" by simp
    moreover have "events ! ?i \<in> set events" using ib by simp
    ultimately show ?thesis by blast
  next
    case 2
    with Cons.IH [OF ib] show ?thesis by blast
  qed
qed

text \<open>
  Claim C1. The claim is that each record is a copy of the most recent event whose time is
  at most the checkpoint, and that among events of one time the last is delivered. The
  loop advances while the checkpoint is greater than the current event's time, so it
  stops at the first event whose time is at least the checkpoint: for the events at
  minutes 1 and 5 and the checkpoint 3 it delivers the event of minute 5, not the event of
  minute 1; and of two events at minute 1 the checkpoint 1 gets the first. (Lemma
  \<open>make_uniform_time_intervals_first_at_or_after\<close> above gives the result of the source for
  all non-decreasing checkpoints.)
\<close>

theorem resample_delivers_next_event:
  "make_uniform_time_intervals [ex_event_a, ex_event_b] [3] = Inr [ex_event_b\<lparr>time := 3\<rparr>] \<and>
   spec_most_recent_at_or_before [ex_event_a, ex_event_b] 3 = Some ex_event_a \<and>
   ex_event_b\<lparr>time := 3\<rparr> \<noteq> ex_event_a\<lparr>time := 3\<rparr> \<and>
   make_uniform_time_intervals [ex_event_a, ex_event_b\<lparr>time := 1\<rparr>] [1] = Inr [ex_event_a]"
  by (simp add: make_uniform_time_intervals_def advance.simps spec_most_recent_at_or_before_def
      ex_event_a_def ex_event_b_def)

section \<open>The resampler on the store\<close>

lemma advance_h_bound: "i < length events \<Longrightarrow> advance_h h events t i < length events"
proof (induction h events t i rule: advance_h.induct)
  case (1 h events t i)
  then show ?case by (subst advance_h.simps) auto
qed

lemma resample_loop_h_step:
  "resample_loop_h events (t # ts) i new h =
     resample_loop_h events ts (advance_h h events t i) (new @ [length h])
       (h @ [(h ! (events ! advance_h h events t i))\<lparr>time := t\<rparr>])"
  by (simp add: Let_def alloc_def set_time_def)

text \<open>
  The loop allocates one object per checkpoint, returns their addresses after those it
  started with, and leaves every object that existed before as it was.
\<close>

lemma resample_loop_h_shape:
  "resample_loop_h events ts i new h = (out, h') \<Longrightarrow>
     length h' = length h + length ts \<and> out = new @ [length h ..< length h + length ts] \<and>
     (\<forall>a < length h. h' ! a = h ! a)"
proof (induction ts arbitrary: i new h)
  case Nil
  then show ?case by simp
next
  case (Cons t ts)
  let ?i = "advance_h h events t i"
  let ?h = "h @ [(h ! (events ! ?i))\<lparr>time := t\<rparr>]"
  from Cons.prems have "resample_loop_h events ts ?i (new @ [length h]) ?h = (out, h')"
    by (simp only: resample_loop_h_step)
  from Cons.IH [OF this]
  have l: "length h' = length ?h + length ts"
    and o: "out = (new @ [length h]) @ [length ?h ..< length ?h + length ts]"
    and u: "\<forall>a < length ?h. h' ! a = ?h ! a" by blast+
  have "[length h ..< length h + length (t # ts)] =
      length h # [Suc (length h) ..< Suc (length h) + length ts]"
    using upt_conv_Cons [of "length h" "length h + Suc (length ts)"] by simp
  with o have "out = new @ [length h ..< length h + length (t # ts)]" by simp
  moreover from l have "length h' = length h + length (t # ts)" by simp
  moreover have "\<forall>a < length h. h' ! a = h ! a"
  proof (intro allI impI)
    fix a assume a: "a < length h"
    then have "h' ! a = ?h ! a" using u by simp
    also have "\<dots> = h ! a" using a by (simp add: nth_append)
    finally show "h' ! a = h ! a" .
  qed
  ultimately show ?case by blast
qed

text \<open>The object allocated for the \<open>k\<close>-th checkpoint is an input event with its time replaced.\<close>

lemma resample_loop_h_copies:
  "resample_loop_h events ts i new h = (out, h') \<Longrightarrow> i < length events \<Longrightarrow>
   \<forall>a \<in> set events. a < length h \<Longrightarrow> k < length ts \<Longrightarrow>
     \<exists>a \<in> set events. h' ! (length h + k) = (h ! a)\<lparr>time := ts ! k\<rparr>"
proof (induction ts arbitrary: i new h k)
  case Nil
  then show ?case by simp
next
  case (Cons t ts)
  let ?i = "advance_h h events t i"
  let ?h = "h @ [(h ! (events ! ?i))\<lparr>time := t\<rparr>]"
  have run: "resample_loop_h events ts ?i (new @ [length h]) ?h = (out, h')"
    using Cons.prems(1) by (simp only: resample_loop_h_step)
  have ib: "?i < length events" using Cons.prems(2) by (rule advance_h_bound)
  have wf: "\<forall>a \<in> set events. a < length ?h" using Cons.prems(3) by auto
  show ?case
  proof (cases k)
    case 0
    from resample_loop_h_shape [OF run] have "h' ! length h = ?h ! length h" by simp
    then have "h' ! (length h + k) = (h ! (events ! ?i))\<lparr>time := (t # ts) ! k\<rparr>"
      using 0 by simp
    moreover have "events ! ?i \<in> set events" using ib by simp
    ultimately show ?thesis by blast
  next
    case (Suc k')
    with Cons.prems(4) have "k' < length ts" by simp
    from Cons.IH [OF run ib wf this] obtain a where
      a: "a \<in> set events" "h' ! (length ?h + k') = (?h ! a)\<lparr>time := ts ! k'\<rparr>" by blast
    from a(1) Cons.prems(3) have "?h ! a = h ! a" by (simp add: nth_append)
    with a(2) Suc have "h' ! (length h + k) = (h ! a)\<lparr>time := (t # ts) ! k\<rparr>" by simp
    with a(1) show ?thesis by blast
  qed
qed

text \<open>
  Claim C9. Resampling does not change the input events: every object of the store that
  existed before the call, the input events among them, is the same after it. Each output
  is a new object: its address is not an address of the store before the call, so it is
  none of the inputs, and no two outputs share an address. Each output agrees with an
  input event on every field but \<open>time\<close>. The events are given by addresses of objects
  of the store, as every Python reference is.
\<close>

theorem resample_store_frame:
  assumes ne: "events \<noteq> []" and wf: "\<forall>a \<in> set events. a < length h"
  shows "\<exists>new_events h'.
     make_uniform_time_intervals_h h events times' = Inr (new_events, h') \<and>
     (\<forall>a \<in> set events. h' ! a = h ! a) \<and>
     (\<forall>a < length h. h' ! a = h ! a) \<and>
     distinct new_events \<and>
     (\<forall>b \<in> set new_events. length h \<le> b \<and> b < length h' \<and> b \<notin> set events \<and>
        (\<exists>a \<in> set events. h' ! b = (h ! a)\<lparr>time := time (h' ! b)\<rparr>))"
proof -
  obtain out h' where run: "resample_loop_h events times' 0 [] h = (out, h')"
    by (cases "resample_loop_h events times' 0 [] h")
  from ne have "make_uniform_time_intervals_h h events times' =
      Inr (resample_loop_h events times' 0 [] h)"
    by (cases events) (simp_all add: make_uniform_time_intervals_h_def)
  with run have res: "make_uniform_time_intervals_h h events times' = Inr (out, h')"
    by simp
  from resample_loop_h_shape [OF run]
  have l: "length h' = length h + length times'"
    and o: "out = [length h ..< length h + length times']"
    and u: "\<forall>a < length h. h' ! a = h ! a" by simp_all
  from o have d: "distinct out" by simp
  have "\<forall>b \<in> set out. length h \<le> b \<and> b < length h' \<and> b \<notin> set events \<and>
        (\<exists>a \<in> set events. h' ! b = (h ! a)\<lparr>time := time (h' ! b)\<rparr>)"
  proof
    fix b assume "b \<in> set out"
    with o have b: "length h \<le> b" "b < length h + length times'" by simp_all
    define k where "k = b - length h"
    with b have k: "b = length h + k" "k < length times'" by simp_all
    from ne have "0 < length events" by simp
    from resample_loop_h_copies [OF run this wf k(2)] obtain a where
      a: "a \<in> set events" "h' ! b = (h ! a)\<lparr>time := times' ! k\<rparr>" using k(1) by blast
    then have "h' ! b = (h ! a)\<lparr>time := time (h' ! b)\<rparr>" by simp
    moreover from wf b(1) have "b \<notin> set events" by auto
    ultimately show "length h \<le> b \<and> b < length h' \<and> b \<notin> set events \<and>
        (\<exists>a \<in> set events. h' ! b = (h ! a)\<lparr>time := time (h' ! b)\<rparr>)"
      using b l a(1) by auto
  qed
  moreover from u wf have "\<forall>a \<in> set events. h' ! a = h ! a" by blast
  ultimately show ?thesis using res u d by blast
qed

theorem resample_store_frame_witness:
  "\<exists>new_events h'.
     make_uniform_time_intervals_h [ex_event_a, ex_event_b] [0, 1, 1] [0, 3, 7] =
       Inr (new_events, h') \<and>
     h' ! 0 = ex_event_a \<and> h' ! 1 = ex_event_b \<and> distinct new_events \<and>
     (\<forall>b \<in> set new_events. 2 \<le> b \<and> b < length h')"
proof -
  have ne: "[0, 1, 1] \<noteq> ([] :: addr list)" by simp
  have wf: "\<forall>a \<in> set [0, 1, 1]. a < length [ex_event_a, ex_event_b]" by simp
  from resample_store_frame [OF ne wf, of "[0, 3, 7]"] obtain new_events h' where
    r: "make_uniform_time_intervals_h [ex_event_a, ex_event_b] [0, 1, 1] [0, 3, 7] =
          Inr (new_events, h')"
    and u: "\<forall>a < length [ex_event_a, ex_event_b]. h' ! a = [ex_event_a, ex_event_b] ! a"
    and d: "distinct new_events"
    and f: "\<forall>b \<in> set new_events. length [ex_event_a, ex_event_b] \<le> b \<and> b < length h'"
    by blast
  from u have "h' ! 0 = ex_event_a" "h' ! 1 = ex_event_b" by simp_all
  moreover from f have "\<forall>b \<in> set new_events. 2 \<le> b \<and> b < length h'"
    by (simp add: numeral_2_eq_2)
  ultimately show ?thesis using r d by blast
qed

text \<open>
  The store model and the value model agree: the objects at the returned addresses are
  the records that the value model returns for the input objects.
\<close>

lemma advance_h_advance:
  "i < length events \<Longrightarrow> advance_h h events t i = advance (map ((!) h) events) t i"
proof (induction h events t i rule: advance_h.induct)
  case (1 h events t i)
  then show ?case
    by (subst advance_h.simps, subst advance.simps) auto
qed

lemma resample_loop_h_values:
  "resample_loop_h events ts i new h = (out, h') \<Longrightarrow> i < length events \<Longrightarrow>
   \<forall>a \<in> set events. a < length h \<Longrightarrow>
     map ((!) h') [length h ..< length h + length ts] = resample_loop (map ((!) h) events) ts i"
proof (induction ts arbitrary: i new h)
  case Nil
  then show ?case by simp
next
  case (Cons t ts)
  let ?i = "advance_h h events t i"
  let ?h = "h @ [(h ! (events ! ?i))\<lparr>time := t\<rparr>]"
  have run: "resample_loop_h events ts ?i (new @ [length h]) ?h = (out, h')"
    using Cons.prems(1) by (simp only: resample_loop_h_step)
  have ib: "?i < length events" using Cons.prems(2) by (rule advance_h_bound)
  have wf: "\<forall>a \<in> set events. a < length ?h" using Cons.prems(3) by auto
  have same: "map ((!) ?h) events = map ((!) h) events"
    using Cons.prems(3) by (simp add: nth_append)
  have i': "?i = advance (map ((!) h) events) t i"
    using Cons.prems(2) by (rule advance_h_advance)
  from Cons.IH [OF run ib wf] same
  have tl: "map ((!) h') [Suc (length h) ..< Suc (length h) + length ts] =
      resample_loop (map ((!) h) events) ts ?i" by simp
  from resample_loop_h_shape [OF run] have "h' ! length h = ?h ! length h" by simp
  then have hd: "h' ! length h = (map ((!) h) events ! ?i)\<lparr>time := t\<rparr>"
    using ib by simp
  have "[length h ..< length h + length (t # ts)] =
      length h # [Suc (length h) ..< Suc (length h) + length ts]"
    using upt_conv_Cons [of "length h" "length h + Suc (length ts)"] by simp
  with tl hd i' show ?case by (simp add: Let_def)
qed

lemma make_uniform_time_intervals_h_values:
  assumes "events \<noteq> []" and "\<forall>a \<in> set events. a < length h"
    and "make_uniform_time_intervals_h h events ts = Inr (out, h')"
  shows "make_uniform_time_intervals (map ((!) h) events) ts = Inr (map ((!) h') out)"
proof -
  from assms(1,3) have run: "resample_loop_h events ts 0 [] h = (out, h')"
    by (cases events) (simp_all add: make_uniform_time_intervals_h_def)
  from resample_loop_h_shape [OF run] have "out = [length h ..< length h + length ts]"
    by simp
  moreover from assms(1) have "0 < length events" by simp
  from resample_loop_h_values [OF run this assms(2)]
  have "map ((!) h') [length h ..< length h + length ts] =
      resample_loop (map ((!) h) events) ts 0" .
  ultimately show ?thesis
    using assms(1) by (simp add: make_uniform_time_intervals_nonempty)
qed

section \<open>Team names and rankings\<close>

text \<open>
  The branch that substitutes \<open>-1\<close> for both ranks is taken when \<open>rank_rows\<close> is \<open>None\<close>,
  and would return the pair of sentinels; but \<open>find_all\<close> returns a list, so the branch is
  never taken, and without any rank cell the unpacking of the empty list raises.
\<close>

lemma parse_ranks_None: "parse_ranks None = Inr (- 1, - 1)"
  by (simp add: parse_ranks_def)

lemma find_all_teamRank_not_None: "find_all_teamRank soup \<noteq> None"
  by (simp add: find_all_teamRank_def)

lemma no_rank_cells_raises:
  "team_rank_cells soup = [] \<Longrightarrow> parse_team_names_and_rankings soup \<noteq> Inr r"
  by (auto simp: parse_team_names_and_rankings_def find_all_teamRank_def parse_ranks_def
      split: option.splits list.splits)

text \<open>
  Claim C7. The claim is that a page without ranking cells yields the rank \<open>-1\<close> for both
  teams, hence a rank difference of 0. On the page \<open>ex_page_no_ranks\<close>, which names both
  teams and has no cell of class \<open>teamRank\<close>, the source raises \<open>ValueError\<close> instead, and
  so does \<open>process_one_game\<close>.
\<close>

theorem missing_ranks_raise:
  "parse_team_names_and_rankings ex_page_no_ranks = Inl ValueError \<and>
   process_one_game ex_page_no_ranks 2 None = Inl ValueError"
  by (simp add: process_one_game_def parse_team_names_and_rankings_def find_all_teamRank_def
      parse_ranks_def ex_page_no_ranks_def)

section \<open>The extractor\<close>

subsection \<open>What a cell does\<close>

lemma match_SCORE_RE_exclusive:
  assumes "match_SCORE_RE c"
  shows "\<not> match_TIMESTAMP_RE c \<and> \<not> match_END_OF_PERIOD_RE c"
proof -
  from assms obtain r where d: "dropWhile is_digit c = CHR ''-'' # r"
    by (auto simp: match_SCORE_RE_def match_digits_sep_digits_def split: list.splits)
  then have "\<not> match_TIMESTAMP_RE c"
    by (simp add: match_TIMESTAMP_RE_def match_digits_sep_digits_def)
  moreover have "\<not> match_END_OF_PERIOD_RE c"
  proof
    assume "match_END_OF_PERIOD_RE c"
    then obtain c' where "c = CHR ''E'' # c'"
      by (cases c) (auto simp: match_END_OF_PERIOD_RE_def)
    then have "dropWhile is_digit c = CHR ''E'' # c'" by (simp add: is_digit_def)
    with d show False by simp
  qed
  ultimately show ?thesis by simp
qed

text \<open>
  At the cell that holds a score, an event is appended exactly when the pair differs from
  the previous pair, and the pair becomes the previous pair.
\<close>

lemma score_cell_emits_iff_changed:
  assumes m: "match_SCORE_RE c" and r: "process_col g st c = Inr st'"
  shows "\<exists>a h. py_ints (py_split (CHR ''-'') c) = Inr [a, h] \<and>
     previous_away_score st' = a \<and> previous_home_score st' = h \<and>
     (if a = previous_away_score st \<and> h = previous_home_score st
      then all_events st' = all_events st
      else \<exists>e. all_events st' = all_events st @ [e] \<and> away_score e = a \<and> home_score e = h)"
proof -
  from match_SCORE_RE_exclusive [OF m]
  have x: "\<not> match_TIMESTAMP_RE c" "\<not> match_END_OF_PERIOD_RE c" by simp_all
  from r obtain st1 where s: "score_step st c = Inr st1" and e: "emit_step g st1 = Inr st'"
    using x by (auto simp: process_col_def timestamp_step_def period_step_def split: sum.splits)
  from s m obtain a h where p: "py_ints (py_split (CHR ''-'') c) = Inr [a, h]"
    and st1: "st1 = st\<lparr>away_score_v := Some a, home_score_v := Some h,
                event_row := (a \<noteq> previous_away_score st \<or> h \<noteq> previous_home_score st),
                previous_away_score := a, previous_home_score := h\<rparr>"
    by (auto simp: score_step_def split: sum.splits list.splits)
  from e st1 have "previous_away_score st' = a \<and> previous_home_score st' = h \<and>
     (if a = previous_away_score st \<and> h = previous_home_score st
      then all_events st' = all_events st
      else \<exists>e. all_events st' = all_events st @ [e] \<and> away_score e = a \<and> home_score e = h)"
    by (auto simp: emit_step_def make_event_def split: if_splits option.splits)
  with p show ?thesis by blast
qed

text \<open>
  The test \<open>if event_row\<close> is inside the loop over the cells, and \<open>event_row\<close> keeps its
  value until the next score cell or the next row: every cell after the score cell of a
  scoring row appends one more event.
\<close>

lemma later_cell_repeats_event:
  assumes "\<not> match_SCORE_RE c" and "event_row st" and "process_col g st c = Inr st'"
  shows "\<exists>e. all_events st' = all_events st @ [e]"
  using assms
  by (auto simp: process_col_def score_step_def timestamp_step_def period_step_def
      emit_step_def split: sum.splits if_splits option.splits)

text \<open>
  Claim C3. The claim is that a changed score yields exactly one event. For the single row
  with the cells \<open>20:00\<close>, \<open>2-0\<close> and \<open>Jumper\<close>, one change of the score from 0-0 to 2-0,
  the source returns the event twice: once at the score cell and once more at the cell
  after it.
\<close>

theorem changed_score_emitted_twice:
  "extract_events ex_identity 2 [[''20:00'', ''2-0'', ''Jumper'']] =
     Inr [ex_event_a\<lparr>time := 0\<rparr>, ex_event_a\<lparr>time := 0\<rparr>]"
  by code_simp

subsection \<open>Rows without a matching cell, and cells that cannot be converted\<close>

lemma process_col_unmatched:
  "\<not> match_SCORE_RE c \<Longrightarrow> \<not> match_TIMESTAMP_RE c \<Longrightarrow> \<not> match_END_OF_PERIOD_RE c \<Longrightarrow>
     process_col g st c = emit_step g st"
  by (simp add: process_col_def score_step_def timestamp_step_def period_step_def)

lemma process_cols_unmatched:
  "list_all unmatched cols \<Longrightarrow> \<not> event_row st \<Longrightarrow> process_cols g st cols = Inr st"
  by (induction cols) (simp_all add: unmatched_def process_col_unmatched emit_step_def)

lemma process_row_unmatched:
  "list_all unmatched cols \<Longrightarrow> process_row g st cols = Inr (st\<lparr>event_row := False\<rparr>)"
  by (simp add: process_row_def process_cols_unmatched)

lemma process_row_event_row:
  "process_row g (st\<lparr>event_row := b\<rparr>) cols = process_row g st cols"
  by (simp add: process_row_def)

lemma process_rows_append:
  "process_rows g st (xs @ ys) =
     (case process_rows g st xs of Inl e \<Rightarrow> Inl e | Inr st' \<Rightarrow> process_rows g st' ys)"
  by (induction xs arbitrary: st) (simp_all split: sum.splits)

lemma events_of_process_rows_event_row:
  "events_of (process_rows g (st\<lparr>event_row := b\<rparr>) rows) = events_of (process_rows g st rows)"
  by (cases rows) (simp_all add: events_of_def process_row_event_row)

lemma events_of_skip_row:
  assumes "list_all unmatched row"
  shows "events_of (process_rows g st (before @ row # after)) =
         events_of (process_rows g st (before @ after))"
proof (cases "process_rows g st before")
  case (Inl e)
  then show ?thesis by (simp add: process_rows_append)
next
  case (Inr st1)
  have "events_of (process_rows g st1 (row # after)) =
        events_of (process_rows g (st1\<lparr>event_row := False\<rparr>) after)"
    using assms by (simp add: process_row_unmatched)
  also have "\<dots> = events_of (process_rows g st1 after)"
    by (rule events_of_process_rows_event_row)
  finally show ?thesis using Inr by (simp add: process_rows_append)
qed

lemma extract_events_events_of:
  "extract_events ident rn rows =
     events_of (process_rows (locals_of ident rn) initial_state rows)"
  by (simp add: extract_events_def events_of_def)

lemma py_int_error: "py_int s = Inl e \<Longrightarrow> e = ValueError"
  by (auto simp: py_int_def Let_def split: if_splits)

text \<open>
  A score cell or a timestamp cell that ends with its separator has an empty second digit
  group and cannot be converted; and an exception raised at a cell ends the scan, whatever
  the cells and rows after it are.
\<close>

lemma py_split_trailing_sep: "sep \<notin> set ds \<Longrightarrow> py_split sep (ds @ [sep]) = [ds, []]"
  by (induction ds) auto

lemma dropWhile_digits_then:
  "list_all is_digit ds \<Longrightarrow> \<not> is_digit c \<Longrightarrow> dropWhile is_digit (ds @ c # r) = c # r"
  by (induction ds) auto

lemma py_int_empty: "py_int [] = Inl ValueError"
  by (simp add: py_int_def py_strip_def)

lemma py_ints_trailing_empty: "py_ints [ds, []] = Inl ValueError"
  using py_int_error [of ds] by (auto simp: py_int_empty split: sum.splits)

lemma score_cell_without_digits_raises:
  assumes "list_all is_digit ds"
  shows "process_col g st (ds @ ''-'') = Inl ValueError"
proof -
  have nd: "\<not> is_digit (CHR ''-'')" by (simp add: is_digit_def)
  from assms nd have ns: "CHR ''-'' \<notin> set ds" by (auto simp: list_all_iff)
  have "match_SCORE_RE (ds @ ''-'')"
    using dropWhile_digits_then [OF assms nd, of "[]"]
    by (simp add: match_SCORE_RE_def match_digits_sep_digits_def at_dollar_def)
  moreover have "py_ints (py_split (CHR ''-'') (ds @ ''-'')) = Inl ValueError"
    using py_split_trailing_sep [OF ns] by (simp only: py_ints_trailing_empty)
  ultimately show ?thesis by (simp add: process_col_def score_step_def)
qed

lemma timestamp_cell_without_digits_raises:
  assumes "list_all is_digit ds"
  shows "process_col g st (ds @ '':'') = Inl ValueError"
proof -
  have nd: "\<not> is_digit (CHR '':'')" by (simp add: is_digit_def)
  from assms nd have ns: "CHR '':'' \<notin> set ds" by (auto simp: list_all_iff)
  have d: "dropWhile is_digit (ds @ '':'') = '':''"
    using dropWhile_digits_then [OF assms nd, of "[]"] by simp
  have m: "match_TIMESTAMP_RE (ds @ '':'')" "\<not> match_SCORE_RE (ds @ '':'')"
    using d by (simp_all add: match_TIMESTAMP_RE_def match_SCORE_RE_def
        match_digits_sep_digits_def at_dollar_def)
  have "py_float [] = Inl ValueError" by (simp add: py_float_def py_int_empty)
  moreover have "py_float ds = Inl e \<Longrightarrow> e = ValueError" for e
    using py_int_error [of ds] by (auto simp: py_float_def split: sum.splits)
  ultimately have "parse_time (ds @ '':'') = Inl ValueError"
    using py_split_trailing_sep [OF ns] by (auto simp: parse_time_def split: sum.splits)
  with m show ?thesis by (simp add: process_col_def score_step_def timestamp_step_def)
qed

lemma process_cols_append:
  "process_cols g st (xs @ ys) =
     (case process_cols g st xs of Inl e \<Rightarrow> Inl e | Inr st' \<Rightarrow> process_cols g st' ys)"
  by (induction xs arbitrary: st) (simp_all split: sum.splits)

lemma exception_ends_the_scan:
  assumes "process_rows g st before = Inr st1"
    and "process_cols g (st1\<lparr>event_row := False\<rparr>) pre = Inr st2"
    and "process_col g st2 c = Inl e"
  shows "process_rows g st (before @ (pre @ c # post) # after) = Inl e"
  using assms by (simp add: process_rows_append process_row_def process_cols_append)

text \<open>
  Claim C4, as stated: no malformed score or timestamp text makes an exception leave the
  extractor. The source has no exception handler. A cell \<open>-\<close> matches \<open>SCORE_RE\<close> and a
  cell \<open>:\<close> matches \<open>TIMESTAMP_RE\<close>, both with empty digit groups; \<open>int('')\<close> and
  \<open>float('')\<close> raise \<open>ValueError\<close>, and the extraction ends with it.
\<close>

theorem malformed_token_raises:
  "extract_events ex_identity 2 [[''-'']] = Inl ValueError \<and>
   extract_events ex_identity 2 [['':'']] = Inl ValueError"
  by code_simp

text \<open>
  Claim C4, amended. A row none of whose cells matches the score, the timestamp or the
  period-end pattern raises no exception and changes nothing but the row's own flag
  \<open>event_row\<close>; the extraction continues with the rows after it and returns what it returns
  without that row (the same events, or the same exception of another row).
\<close>

theorem unmatched_row_is_skipped:
  assumes "\<forall>c \<in> set row.
     \<not> match_SCORE_RE c \<and> \<not> match_TIMESTAMP_RE c \<and> \<not> match_END_OF_PERIOD_RE c"
  shows "process_row g st row = Inr (st\<lparr>event_row := False\<rparr>) \<and>
         extract_events ident rn (before @ row # after) =
           extract_events ident rn (before @ after)"
proof -
  from assms have u: "list_all unmatched row" by (simp add: list_all_iff unmatched_def)
  then have "process_row g st row = Inr (st\<lparr>event_row := False\<rparr>)"
    by (rule process_row_unmatched)
  moreover from u have "extract_events ident rn (before @ row # after) =
      extract_events ident rn (before @ after)"
    by (simp only: extract_events_events_of events_of_skip_row)
  ultimately show ?thesis by simp
qed

theorem unmatched_row_is_skipped_witness:
  "extract_events ex_identity 2
     [[''20:00'', ''2-0''], [''Official TV Timeout'', []], [''15:00'', ''4-0'']] =
   Inr [ex_event_a\<lparr>time := 0\<rparr>, ex_event_b]"
proof -
  have u: "\<forall>c \<in> set [''Official TV Timeout'', []].
      \<not> match_SCORE_RE c \<and> \<not> match_TIMESTAMP_RE c \<and> \<not> match_END_OF_PERIOD_RE c"
    by (simp add: match_SCORE_RE_def match_TIMESTAMP_RE_def match_END_OF_PERIOD_RE_def
        match_digits_sep_digits_def is_digit_def)
  have "extract_events ex_identity 2 ([[''20:00'', ''2-0'']] @ [[''15:00'', ''4-0'']]) =
      Inr [ex_event_a\<lparr>time := 0\<rparr>, ex_event_b]"
    by code_simp
  with unmatched_row_is_skipped [OF u, of _ _ ex_identity 2
      "[[''20:00'', ''2-0'']]" "[[''15:00'', ''4-0'']]"]
  show ?thesis by simp
qed

subsection \<open>The fields fixed for a game\<close>

lemma score_step_all_events:
  "score_step st c = Inr st' \<Longrightarrow> all_events st' = all_events st"
  by (auto simp: score_step_def split: if_splits sum.splits list.splits)

lemma timestamp_step_all_events:
  "timestamp_step st c = Inr st' \<Longrightarrow> all_events st' = all_events st"
  by (auto simp: timestamp_step_def split: if_splits sum.splits)

lemma period_step_all_events: "all_events (period_step st c) = all_events st"
  by (simp add: period_step_def)

lemma make_event_carries_identity: "carries_identity g (make_event g st a h ct)"
  by (simp add: carries_identity_def make_event_def)

lemma emit_step_identity:
  "emit_step g st = Inr st' \<Longrightarrow> list_all (carries_identity g) (all_events st) \<Longrightarrow>
     list_all (carries_identity g) (all_events st')"
  by (auto simp: emit_step_def make_event_carries_identity split: if_splits option.splits)

lemma process_col_identity:
  assumes "process_col g st c = Inr st'" and "list_all (carries_identity g) (all_events st)"
  shows "list_all (carries_identity g) (all_events st')"
proof -
  from assms(1) obtain st1 st2 where
    s: "score_step st c = Inr st1" "timestamp_step st1 c = Inr st2"
       "emit_step g (period_step st2 c) = Inr st'"
    by (auto simp: process_col_def split: sum.splits)
  from s(1,2) have "all_events (period_step st2 c) = all_events st"
    by (simp add: period_step_all_events timestamp_step_all_events score_step_all_events)
  with assms(2) emit_step_identity [OF s(3)] show ?thesis by simp
qed

lemma process_cols_identity:
  "process_cols g st cols = Inr st' \<Longrightarrow> list_all (carries_identity g) (all_events st) \<Longrightarrow>
     list_all (carries_identity g) (all_events st')"
proof (induction cols arbitrary: st)
  case Nil
  then show ?case by simp
next
  case (Cons c cols)
  from Cons.prems(1) obtain st1 where
    s: "process_col g st c = Inr st1" "process_cols g st1 cols = Inr st'"
    by (auto split: sum.splits)
  from process_col_identity [OF s(1) Cons.prems(2)] Cons.IH [OF s(2)] show ?case by simp
qed

lemma process_row_identity:
  "process_row g st cols = Inr st' \<Longrightarrow> list_all (carries_identity g) (all_events st) \<Longrightarrow>
     list_all (carries_identity g) (all_events st')"
  unfolding process_row_def by (erule process_cols_identity) simp

lemma process_rows_identity:
  "process_rows g st rows = Inr st' \<Longrightarrow> list_all (carries_identity g) (all_events st) \<Longrightarrow>
     list_all (carries_identity g) (all_events st')"
proof (induction rows arbitrary: st)
  case Nil
  then show ?case by simp
next
  case (Cons r rows)
  from Cons.prems(1) obtain st1 where
    s: "process_row g st r = Inr st1" "process_rows g st1 rows = Inr st'"
    by (auto split: sum.splits)
  from process_row_identity [OF s(1) Cons.prems(2)] Cons.IH [OF s(2)] show ?case by simp
qed

lemma extract_events_identity:
  assumes "extract_events ident rn rows = Inr evs"
  shows "list_all (carries_identity (locals_of ident rn)) evs"
proof -
  from assms obtain st where
    s: "process_rows (locals_of ident rn) initial_state rows = Inr st" "evs = all_events st"
    by (auto simp: extract_events_def split: sum.splits)
  have "list_all (carries_identity (locals_of ident rn)) (all_events initial_state)"
    by (simp add: initial_state_def)
  from process_rows_identity [OF s(1) this] s(2) show ?thesis by simp
qed

text \<open>
  Claim C10. Every event of one extraction run has the game id \<open>away-home\<close>, the round
  number given by the caller, the two names and the two ranks of the team identity, and
  the absolute difference of the ranks: the seven fields are the same in all events of the
  run, whatever the rows are.
\<close>

theorem extracted_events_share_identity:
  assumes "extract_events (an, ar, hn, hr) rn rows = Inr evs" and "e \<in> set evs"
  shows "game_id e = an @ ''-'' @ hn \<and> round_num e = rn \<and> away e = an \<and>
         away_rank e = ar \<and> home e = hn \<and> home_rank e = hr \<and> rank_diff e = \<bar>ar - hr\<bar>"
proof -
  from extract_events_identity [OF assms(1)] assms(2)
  have "carries_identity (locals_of (an, ar, hn, hr) rn) e" by (simp add: list_all_iff)
  then show ?thesis by (simp add: carries_identity_def locals_of_def)
qed

theorem extracted_events_share_identity_witness:
  "extract_events (''A'', 5, ''B'', 10) 2 [[''20:00'', ''2-0''], [''15:00'', ''4-0'']] =
     Inr [ex_event_a\<lparr>time := 0\<rparr>, ex_event_b] \<and>
   game_id ex_event_b = ''A-B'' \<and> round_num ex_event_b = 2 \<and> away ex_event_b = ''A'' \<and>
   away_rank ex_event_b = 5 \<and> home ex_event_b = ''B'' \<and> home_rank ex_event_b = 10 \<and>
   rank_diff ex_event_b = 5"
proof -
  have x: "extract_events (''A'', 5, ''B'', 10) 2 [[''20:00'', ''2-0''], [''15:00'', ''4-0'']] =
      Inr [ex_event_a\<lparr>time := 0\<rparr>, ex_event_b]"
    by code_simp
  have m: "ex_event_b \<in> set [ex_event_a\<lparr>time := 0\<rparr>, ex_event_b]" by simp
  from extracted_events_share_identity [OF x m] x show ?thesis by simp
qed

text \<open>The same holds of what \<open>process_one_game\<close> returns, resampled or not.\<close>

lemma carries_identity_time: "carries_identity g (e\<lparr>time := t\<rparr>) = carries_identity g e"
  by (simp add: carries_identity_def)

lemma make_uniform_time_intervals_identity:
  assumes "make_uniform_time_intervals evs ts = Inr out" and "list_all (carries_identity g) evs"
  shows "list_all (carries_identity g) out"
proof -
  from assms(1) have ne: "evs \<noteq> []" and o: "out = resample_loop evs ts 0"
    by (auto simp: make_uniform_time_intervals_def split: list.splits)
  have "carries_identity g e" if "e \<in> set out" for e
  proof -
    from ne have "0 < length evs" by simp
    from resample_loop_copies [OF this] that o obtain e' where
      e': "e' \<in> set evs" "e = e'\<lparr>time := time e\<rparr>" by blast
    from e'(1) assms(2) have "carries_identity g e'" by (simp add: list_all_iff)
    then have "carries_identity g (e'\<lparr>time := time e\<rparr>)"
      by (simp only: carries_identity_time)
    with e'(2) show ?thesis by simp
  qed
  then show ?thesis by (simp add: list_all_iff)
qed

lemma process_one_game_identity:
  assumes "parse_team_names_and_rankings soup = Inr (an, ar, hn, hr)"
    and "process_one_game soup rn ti = Inr evs" and "e \<in> set evs"
  shows "game_id e = an @ ''-'' @ hn \<and> round_num e = rn \<and> away e = an \<and>
         away_rank e = ar \<and> home e = hn \<and> home_rank e = hr \<and> rank_diff e = \<bar>ar - hr\<bar>"
proof -
  let ?g = "locals_of (an, ar, hn, hr) rn"
  from assms(1,2) obtain evs0 where
    x: "extract_events (an, ar, hn, hr) rn (tr_rows soup) = Inr evs0"
    and r: "ti = None \<and> evs = evs0 \<or>
            (\<exists>ts. ti = Some ts \<and> make_uniform_time_intervals evs0 ts = Inr evs)"
    by (auto simp: process_one_game_def split: sum.splits option.splits)
  have i0: "list_all (carries_identity ?g) evs0" using x by (rule extract_events_identity)
  from r have "list_all (carries_identity ?g) evs"
    using i0 make_uniform_time_intervals_identity by blast
  with assms(3) have "carries_identity ?g e" by (simp add: list_all_iff)
  then show ?thesis by (simp add: carries_identity_def locals_of_def)
qed

end
